theory Spec2Isabelle
  imports Main "HOL-Library.Finite_Map"
begin

section \<open>Python strings\<close>

text \<open>
  A Python \<open>str\<close> is modelled as a \<open>string\<close>; each \<open>char\<close> stands for one code point
  below 256, and \<open>length\<close> is Python's \<open>len\<close>.  The character classes below are the
  ones the source's regular expressions and \<open>str\<close> methods use, restricted to that range.
\<close>

definition py_isspace :: "char \<Rightarrow> bool" where
  \<comment> \<open>\<open>str.isspace\<close> on one character; also the class \<open>\s\<close> and what \<open>str.strip()\<close> removes\<close>
  "py_isspace c =
     (let n = (of_char c :: nat)
      in (9 \<le> n \<and> n \<le> 13) \<or> (28 \<le> n \<and> n \<le> 32) \<or> n = 133 \<or> n = 160)"

definition is_lower_az :: "char \<Rightarrow> bool" where
  \<comment> \<open>the class \<open>[a-z]\<close>\<close>
  "is_lower_az c = (let n = (of_char c :: nat) in 97 \<le> n \<and> n \<le> 122)"

definition is_lowercase_letter :: "char \<Rightarrow> bool" where
  \<comment> \<open>\<open>str.islower\<close> on one character: the lowercase letters below 256, which are
      \<open>a\<close> to \<open>z\<close>, the ordinal indicators and the micro sign (170, 186, 181), and the
      letters at 223 to 246 and 248 to 255 (the sharp s and the accented lowercase
      letters)\<close>
  "is_lowercase_letter c =
     (let n = (of_char c :: nat)
      in (97 \<le> n \<and> n \<le> 122) \<or> n = 170 \<or> n = 181 \<or> n = 186
         \<or> (223 \<le> n \<and> n \<le> 246) \<or> (248 \<le> n \<and> n \<le> 255))"

definition is_alpha_az :: "char \<Rightarrow> bool" where
  \<comment> \<open>the class \<open>[a-zA-Z]\<close>\<close>
  "is_alpha_az c =
     (let n = (of_char c :: nat) in (97 \<le> n \<and> n \<le> 122) \<or> (65 \<le> n \<and> n \<le> 90))"

definition is_alnum_az :: "char \<Rightarrow> bool" where
  \<comment> \<open>the class \<open>[a-zA-Z0-9]\<close>\<close>
  "is_alnum_az c =
     (let n = (of_char c :: nat) in is_alpha_az c \<or> (48 \<le> n \<and> n \<le> 57))"

definition rstrip_ws :: "string \<Rightarrow> string" where
  \<comment> \<open>\<open>s.rstrip()\<close>\<close>
  "rstrip_ws s = rev (dropWhile py_isspace (rev s))"

definition strip_ws :: "string \<Rightarrow> string" where
  \<comment> \<open>\<open>s.strip()\<close>\<close>
  "strip_ws s = dropWhile py_isspace (rstrip_ws s)"

definition rstrip_chars :: "string \<Rightarrow> string \<Rightarrow> string" where
  \<comment> \<open>\<open>s.rstrip(chars)\<close>\<close>
  "rstrip_chars s chars = rev (dropWhile (\<lambda>c. c \<in> set chars) (rev s))"

definition endswith :: "string \<Rightarrow> string \<Rightarrow> bool" where
  \<comment> \<open>\<open>s.endswith(suffix)\<close>\<close>
  "endswith s suffix =
     (length suffix \<le> length s \<and> drop (length s - length suffix) s = suffix)"

fun rfind :: "string \<Rightarrow> char \<Rightarrow> int" where
  \<comment> \<open>\<open>s.rfind(c)\<close> for a one-character \<open>c\<close>: the highest index of \<open>c\<close>, or \<open>-1\<close>\<close>
  "rfind [] c = - 1"
| "rfind (x # xs) c =
     (let r = rfind xs c in if 0 \<le> r then r + 1 else if x = c then 0 else - 1)"

section \<open>message_handler.py: combine_messages\<close>

fun match_ws_dollar :: "string \<Rightarrow> bool" where
  \<comment> \<open>whether \<open>\s*$\<close> matches at the start of the given rest of the string; \<open>$\<close> is the
      end of the string or the position before a final newline\<close>
  "match_ws_dollar [] = True"
| "match_ws_dollar (c # cs) =
     ((c = CHR 0x0A \<and> cs = []) \<or> (py_isspace c \<and> match_ws_dollar cs))"

fun ends_with_punct :: "string \<Rightarrow> bool" where
  \<comment> \<open>\<open>re.search(r'[.!?]\s*$', prev_msg)\<close> finds a match\<close>
  "ends_with_punct [] = False"
| "ends_with_punct (c # cs) =
     ((c \<in> {CHR ''.'', CHR ''!'', CHR ''?''} \<and> match_ws_dollar cs) \<or> ends_with_punct cs)"

definition starts_with_lowercase :: "string \<Rightarrow> bool" where
  \<comment> \<open>\<open>re.search(r'^[a-z,;:]', curr_msg)\<close> finds a match\<close>
  "starts_with_lowercase curr_msg =
     (case curr_msg of [] \<Rightarrow> False
      | c # _ \<Rightarrow> is_lower_az c \<or> c \<in> {CHR '','', CHR '';'', CHR '':''})"

definition combine_body :: "string list \<Rightarrow> nat \<Rightarrow> string \<Rightarrow> string" where
  \<comment> \<open>one pass of the \<open>for i in range(1, len(message_texts))\<close> loop body\<close>
  "combine_body message_texts i combined_text =
     (let prev_msg = message_texts ! (i - 1);
          curr_msg = message_texts ! i
      in if \<not> ends_with_punct prev_msg \<or> starts_with_lowercase curr_msg
         then (if endswith (strip_ws prev_msg) ''-''
               then rstrip_chars combined_text ''-'' @ curr_msg
               else combined_text @ '' '' @ curr_msg)
         else combined_text @ [CHR 0x0A, CHR 0x0A] @ curr_msg)"

definition combine_messages :: "(string \<times> 'a) list \<Rightarrow> string \<times> 'a list" where
  "combine_messages messages =
     (if messages = [] then ('''', [])
      else if length messages = 1 then (fst (messages ! 0), [snd (messages ! 0)])
      else
        let message_texts = map fst messages;
            message_ids = map snd messages;
            combined_text =
              fold (combine_body message_texts) [1 ..< length message_texts]
                (message_texts ! 0)
        in (combined_text, message_ids))"

subsection \<open>The coalescing rule in the specification's words\<close>

definition endsWithSentencePunct :: "string \<Rightarrow> bool" where
  \<comment> \<open>the text, right-trimmed of trailing whitespace, ends with one of \<open>. ! ?\<close>\<close>
  "endsWithSentencePunct prev =
     (endswith (rstrip_ws prev) ''.'' \<or> endswith (rstrip_ws prev) ''!''
      \<or> endswith (rstrip_ws prev) ''?'')"

definition startsLowercaseOrContinuation :: "(char \<Rightarrow> bool) \<Rightarrow> string \<Rightarrow> bool" where
  \<comment> \<open>the first character is a lowercase letter, a comma, a semicolon or a colon; which
      characters count as lowercase letters is the parameter \<open>lowercase\<close>\<close>
  "startsLowercaseOrContinuation lowercase current =
     (current \<noteq> []
      \<and> (lowercase (hd current) \<or> hd current = CHR '','' \<or> hd current = CHR '';''
         \<or> hd current = CHR '':''))"

definition join_pair :: "(char \<Rightarrow> bool) \<Rightarrow> string \<Rightarrow> string \<Rightarrow> string \<Rightarrow> string" where
  \<comment> \<open>the accumulated text after the pair (previous, current) has been decided\<close>
  "join_pair lowercase acc prev current =
     (if \<not> endsWithSentencePunct prev \<or> startsLowercaseOrContinuation lowercase current
      then (if endswith (rstrip_ws prev) ''-''
            then rstrip_chars acc ''-'' @ current
            else acc @ '' '' @ current)
      else acc @ [CHR 0x0A, CHR 0x0A] @ current)"

fun coalesce_pairs :: "(char \<Rightarrow> bool) \<Rightarrow> string \<Rightarrow> string \<Rightarrow> string list \<Rightarrow> string" where
  \<comment> \<open>adjacent pairs decided left to right: the accumulated text, the previous fragment's
      text, the fragments still to come\<close>
  "coalesce_pairs lowercase acc prev [] = acc"
| "coalesce_pairs lowercase acc prev (current # rest) =
     coalesce_pairs lowercase (join_pair lowercase acc prev current) current rest"

text \<open>
  The claim's words, ``a lowercase letter'', are \<open>coalesce_pairs is_lowercase_letter\<close>; the
  rule restricted to the letters \<open>a\<close> to \<open>z\<close> is \<open>coalesce_pairs is_lower_az\<close>.
\<close>

section \<open>message_handler.py: split_response\<close>

definition open_tag_match :: "string \<Rightarrow> (string \<times> nat) option" where
  \<comment> \<open>\<open>open_tag_pattern.match(s)\<close> for the pattern
      \<open><([a-zA-Z][a-zA-Z0-9]*)(?:\s[^>]*)?>\<close>: \<open>group(1)\<close> and \<open>end()\<close> of the match\<close>
  "open_tag_match s =
     (case s of
        lt # c # rest \<Rightarrow>
          if lt = CHR ''<'' \<and> is_alpha_az c then
            (let tag_name = c # takeWhile is_alnum_az rest;
                 after = dropWhile is_alnum_az rest
             in case after of
                  [] \<Rightarrow> None
                | d # more \<Rightarrow>
                    if d = CHR ''>'' then Some (tag_name, length tag_name + 2)
                    else if py_isspace d \<and> CHR ''>'' \<in> set more then
                      Some (tag_name,
                        length tag_name + 2 + length (takeWhile (\<lambda>x. x \<noteq> CHR ''>'') more) + 1)
                    else None)
          else None
      | _ \<Rightarrow> None)"

definition close_tag_match :: "string \<Rightarrow> (string \<times> nat) option" where
  \<comment> \<open>\<open>close_tag_pattern.match(s)\<close> for the pattern \<open></([a-zA-Z][a-zA-Z0-9]*)>\<close>\<close>
  "close_tag_match s =
     (case s of
        lt # sl # c # rest \<Rightarrow>
          if lt = CHR ''<'' \<and> sl = CHR ''/'' \<and> is_alpha_az c then
            (let tag_name = c # takeWhile is_alnum_az rest;
                 after = dropWhile is_alnum_az rest
             in case after of
                  [] \<Rightarrow> None
                | d # more \<Rightarrow>
                    if d = CHR ''>'' then Some (tag_name, length tag_name + 3) else None)
          else None
      | _ \<Rightarrow> None)"

definition slice_to :: "string \<Rightarrow> int \<Rightarrow> string" where
  \<comment> \<open>\<open>s[:n]\<close>; a negative \<open>n\<close> counts from the end\<close>
  "slice_to s n = (if 0 \<le> n then take (nat n) s else take (length s - nat (- n)) s)"

definition slice_from :: "string \<Rightarrow> int \<Rightarrow> string" where
  \<comment> \<open>\<open>s[n:]\<close>; a negative \<open>n\<close> counts from the end\<close>
  "slice_from s n = (if 0 \<le> n then drop (nat n) s else drop (length s - nat (- n)) s)"

definition closing_tags :: "string list \<Rightarrow> string" where
  \<comment> \<open>\<open>''.join(f'</{tag}>' for tag in reversed(open_tags))\<close>\<close>
  "closing_tags open_tags = concat (map (\<lambda>tag. ''</'' @ tag @ ''>'') (rev open_tags))"

definition opening_tags :: "string list \<Rightarrow> string" where
  \<comment> \<open>\<open>''.join(f'<{tag}>' for tag in open_tags)\<close>\<close>
  "opening_tags open_tags = concat (map (\<lambda>tag. ''<'' @ tag @ ''>'') open_tags)"

definition find_break :: "string \<Rightarrow> int \<Rightarrow> int" where
  \<comment> \<open>the value of \<open>break_pos\<close> after \<open>break_pos += 1\<close>\<close>
  "find_break current_part max_length =
     (let break_pos = max (rfind current_part CHR ''.'')
                        (max (rfind current_part CHR ''!'') (rfind current_part CHR ''?''));
          break_pos = (if break_pos = - 1 \<or> break_pos < max_length - 200
                       then rfind current_part CHR '' '' else break_pos);
          break_pos = (if break_pos = - 1 \<or> break_pos < max_length - 300
                       then int (length current_part) - 1 else break_pos)
      in break_pos + 1)"

definition flush_part :: "int \<Rightarrow> string \<Rightarrow> string list \<Rightarrow> string list \<Rightarrow> string list \<times> string" where
  \<comment> \<open>the body of \<open>if len(current_part) >= max_length\<close>: the new \<open>parts\<close> and \<open>current_part\<close>\<close>
  "flush_part max_length current_part open_tags parts =
     (let break_pos = find_break current_part max_length;
          part_text = slice_to current_part break_pos @ closing_tags open_tags
      in (parts @ [part_text], opening_tags open_tags @ slice_from current_part break_pos))"

definition scan_tag :: "string \<Rightarrow> nat \<Rightarrow> string \<Rightarrow> string list \<Rightarrow> nat \<times> string \<times> string list" where
  \<comment> \<open>the rest of the loop body, from \<open>if text[i:i+1] == '<'\<close> on: the new \<open>i\<close>,
      \<open>current_part\<close> and \<open>open_tags\<close>\<close>
  "scan_tag text i current_part open_tags =
     (if take 1 (drop i text) = ''<'' then
        (case open_tag_match (drop i text) of
           Some (tag_name, tag_length) \<Rightarrow>
             (i + tag_length, current_part @ take tag_length (drop i text),
              if take 2 (drop (i + tag_length - 2) text) = ''/>''
              then open_tags else open_tags @ [tag_name])
         | None \<Rightarrow>
             (case close_tag_match (drop i text) of
                Some (tag_name, tag_length) \<Rightarrow>
                  (i + tag_length, current_part @ take tag_length (drop i text),
                   if open_tags \<noteq> [] \<and> last open_tags = tag_name
                   then butlast open_tags else open_tags)
              | None \<Rightarrow> (i + 1, current_part @ [text ! i], open_tags)))
      else (i + 1, current_part @ [text ! i], open_tags))"

definition loop_body ::
  "string \<Rightarrow> int \<Rightarrow> nat \<Rightarrow> string \<Rightarrow> string list \<Rightarrow> string list
     \<Rightarrow> nat \<times> string \<times> string list \<times> string list" where
  \<comment> \<open>one pass of \<open>while i < len(text)\<close>: the new \<open>i\<close>, \<open>current_part\<close>, \<open>open_tags\<close>, \<open>parts\<close>\<close>
  "loop_body text max_length i current_part open_tags parts =
     (case (if max_length \<le> int (length current_part)
            then flush_part max_length current_part open_tags parts
            else (parts, current_part)) of
        (parts1, current_part1) \<Rightarrow>
          (case scan_tag text i current_part1 open_tags of
             (i2, current_part2, open_tags2) \<Rightarrow> (i2, current_part2, open_tags2, parts1)))"

lemma open_tag_match_pos: "open_tag_match s = Some (n, l) \<Longrightarrow> 0 < l"
  by (auto simp: open_tag_match_def Let_def split: list.splits if_splits)

lemma close_tag_match_pos: "close_tag_match s = Some (n, l) \<Longrightarrow> 0 < l"
  by (auto simp: close_tag_match_def Let_def split: list.splits if_splits)

lemma scan_tag_advances: "scan_tag text i c t = (i2, c2, t2) \<Longrightarrow> i < i2"
  by (auto simp: scan_tag_def split: if_splits option.splits
        dest: open_tag_match_pos close_tag_match_pos)

lemma loop_body_advances: "loop_body text m i c t p = (i2, c2, t2, p2) \<Longrightarrow> i < i2"
  by (auto simp: loop_body_def split: prod.splits dest: scan_tag_advances)

lemma loop_body_measure:
  "i < length text \<Longrightarrow>
     (case loop_body text m i c t p of (i2, rest) \<Rightarrow> length text - i2) < length text - i"
proof -
  assume less: "i < length text"
  obtain i2 c2 t2 p2 where step: "loop_body text m i c t p = (i2, c2, t2, p2)"
    by (cases "loop_body text m i c t p") auto
  from loop_body_advances [OF step] less show ?thesis
    by (simp add: step)
qed

function split_loop ::
  "string \<Rightarrow> int \<Rightarrow> nat \<Rightarrow> string \<Rightarrow> string list \<Rightarrow> string list \<Rightarrow> string list" where
  "split_loop text max_length i current_part open_tags parts =
     (if i < length text then
        (case loop_body text max_length i current_part open_tags parts of
           (i2, current_part2, open_tags2, parts2) \<Rightarrow>
             split_loop text max_length i2 current_part2 open_tags2 parts2)
      else if current_part \<noteq> [] then parts @ [current_part] else parts)"
  by pat_completeness auto
termination
  by (relation "measure (\<lambda>(text, max_length, i, rest). length text - i)")
     (auto simp: loop_body_measure)

definition split_response :: "int \<Rightarrow> string \<Rightarrow> int option \<Rightarrow> string list" where
  \<comment> \<open>\<open>MAX_MESSAGE_LENGTH\<close> is the value config.py reads from the environment\<close>
  "split_response MAX_MESSAGE_LENGTH text max_length_arg =
     (let max_length = (case max_length_arg of None \<Rightarrow> MAX_MESSAGE_LENGTH | Some n \<Rightarrow> n)
      in if int (length text) \<le> max_length then [text]
         else split_loop text max_length 0 [] [] [])"

subsection \<open>The break point in the specification's words\<close>

fun rightmost :: "(char \<Rightarrow> bool) \<Rightarrow> string \<Rightarrow> nat option" where
  \<comment> \<open>the position of the rightmost character of the buffer that satisfies \<open>P\<close>, if any\<close>
  "rightmost P [] = None"
| "rightmost P (x # xs) =
     (case rightmost P xs of
        Some k \<Rightarrow> Some (Suc k)
      | None \<Rightarrow> if P x then Some 0 else None)"

definition is_sentence_end :: "char \<Rightarrow> bool" where
  "is_sentence_end c = (c = CHR ''.'' \<or> c = CHR ''!'' \<or> c = CHR ''?'')"

definition not_too_early :: "nat option \<Rightarrow> int \<Rightarrow> nat option" where
  \<comment> \<open>a candidate position is kept unless it is earlier than the given bound\<close>
  "not_too_early candidate bound =
     (case candidate of
        None \<Rightarrow> None
      | Some k \<Rightarrow> if int k < bound then None else Some k)"

definition chosen_break :: "string \<Rightarrow> int \<Rightarrow> nat" where
  \<comment> \<open>the number of characters of the buffer that go into the emitted chunk: the
      sentence break, failing that the space break, failing that the whole buffer; a
      break position is advanced by one so that its character is included\<close>
  "chosen_break buffer maxLength =
     (case not_too_early (rightmost is_sentence_end buffer) (maxLength - 200) of
        Some k \<Rightarrow> Suc k
      | None \<Rightarrow>
          (case not_too_early (rightmost (\<lambda>c. c = CHR '' '') buffer) (maxLength - 300) of
             Some k \<Rightarrow> Suc k
           | None \<Rightarrow> length buffer))"

subsection \<open>Reading a chunk on its own\<close>

lemma scan_tag_measure:
  "i < length chunk \<Longrightarrow> (i2, c2, t2) = scan_tag chunk i c t \<Longrightarrow>
     length chunk - i2 < length chunk - i"
proof -
  assume less: "i < length chunk" and "(i2, c2, t2) = scan_tag chunk i c t"
  then have step: "scan_tag chunk i c t = (i2, c2, t2)"
    by simp
  from scan_tag_advances [OF step] less show ?thesis
    by simp
qed

function scan_chunk :: "string \<Rightarrow> nat \<Rightarrow> string list \<Rightarrow> string list" where
  \<comment> \<open>the open-tag stack at the end of a string scanned from position \<open>i\<close> with the
      splitter's own tag recognition and stack rule\<close>
  "scan_chunk chunk i open_tags =
     (if i < length chunk then
        (case scan_tag chunk i [] open_tags of
           (i2, current_part2, open_tags2) \<Rightarrow> scan_chunk chunk i2 open_tags2)
      else open_tags)"
  by pat_completeness auto
termination
  by (relation "measure (\<lambda>(chunk, i, rest). length chunk - i)")
     (auto intro: scan_tag_measure)

definition tag_length_at :: "string \<Rightarrow> nat option" where
  \<comment> \<open>the length of the opening or closing tag that starts the string, if one does\<close>
  "tag_length_at s =
     (case open_tag_match s of
        Some (tag_name, tag_length) \<Rightarrow> Some tag_length
      | None \<Rightarrow>
          (case close_tag_match s of
             Some (tag_name, tag_length) \<Rightarrow> Some tag_length
           | None \<Rightarrow> None))"

lemma tag_length_at_measure:
  "i < length s \<Longrightarrow> tag_length_at (drop i s) = Some l \<Longrightarrow> length s - (i + l) < length s - i"
  by (auto simp: tag_length_at_def split: option.splits
        dest: open_tag_match_pos close_tag_match_pos)

function visible_text :: "string \<Rightarrow> nat \<Rightarrow> string" where
  \<comment> \<open>the string from position \<open>i\<close> on with every tag removed\<close>
  "visible_text s i =
     (if i < length s then
        (case tag_length_at (drop i s) of
           Some l \<Rightarrow> visible_text s (i + l)
         | None \<Rightarrow> s ! i # visible_text s (i + 1))
      else [])"
  by pat_completeness auto
termination
  by (relation "measure (\<lambda>(s, i). length s - i)")
     (auto simp: tag_length_at_measure)

subsection \<open>The loop pass by pass\<close>

fun state_after :: "string \<Rightarrow> int \<Rightarrow> nat \<Rightarrow> nat \<times> string \<times> string list \<times> string list" where
  \<comment> \<open>the values of \<open>i\<close>, \<open>current_part\<close>, \<open>open_tags\<close> and \<open>parts\<close> after \<open>n\<close> passes of
      \<open>while i < len(text)\<close>; they stay as they are once the loop has ended\<close>
  "state_after text max_length 0 = (0, [], [], [])"
| "state_after text max_length (Suc n) =
     (case state_after text max_length n of
        (i, current_part, open_tags, parts) \<Rightarrow>
          if i < length text then loop_body text max_length i current_part open_tags parts
          else (i, current_part, open_tags, parts))"

fun occurs_in :: "string \<Rightarrow> string \<Rightarrow> bool" where
  \<comment> \<open>\<open>t in s\<close>: the string \<open>t\<close> occurs in \<open>s\<close> as a contiguous piece\<close>
  "occurs_in t [] = (t = [])"
| "occurs_in t (x # xs) = (take (length t) (x # xs) = t \<or> occurs_in t xs)"

subsection \<open>The operations that can raise\<close>

text \<open>
  In \<open>split_response\<close> three operations can raise: \<open>text[i]\<close>, \<open>open_tags[-1]\<close> and
  \<open>open_tags.pop()\<close>, each an \<open>IndexError\<close> (slices, \<open>rfind\<close>, \<open>join\<close> and the pattern
  matches do not raise, and \<open>group\<close> and \<open>end\<close> are called on a match that was found).
  The definitions below are the same loop with each of them as a branch that returns
  the error.
\<close>

datatype error = IndexError

definition getitem :: "'a list \<Rightarrow> nat \<Rightarrow> error + 'a" where
  \<comment> \<open>\<open>xs[i]\<close> for \<open>i >= 0\<close>\<close>
  "getitem xs i = (if i < length xs then Inr (xs ! i) else Inl IndexError)"

definition getitem_last :: "'a list \<Rightarrow> error + 'a" where
  \<comment> \<open>\<open>xs[-1]\<close>\<close>
  "getitem_last xs = (if xs = [] then Inl IndexError else Inr (last xs))"

definition pop :: "'a list \<Rightarrow> error + 'a list" where
  \<comment> \<open>the list after \<open>xs.pop()\<close>\<close>
  "pop xs = (if xs = [] then Inl IndexError else Inr (butlast xs))"

definition scan_tag_checked ::
  "string \<Rightarrow> nat \<Rightarrow> string \<Rightarrow> string list \<Rightarrow> error + nat \<times> string \<times> string list" where
  \<comment> \<open>the loop body from \<open>if text[i:i+1] == '<'\<close> on\<close>
  "scan_tag_checked text i current_part open_tags =
     (let plain =
            (case getitem text i of
               Inl e \<Rightarrow> Inl e
             | Inr c \<Rightarrow> Inr (i + 1, current_part @ [c], open_tags))
      in if take 1 (drop i text) = ''<'' then
           (case open_tag_match (drop i text) of
              Some (tag_name, tag_length) \<Rightarrow>
                Inr (i + tag_length, current_part @ take tag_length (drop i text),
                     if take 2 (drop (i + tag_length - 2) text) = ''/>''
                     then open_tags else open_tags @ [tag_name])
            | None \<Rightarrow>
                (case close_tag_match (drop i text) of
                   Some (tag_name, tag_length) \<Rightarrow>
                     if open_tags \<noteq> [] then
                       (case getitem_last open_tags of
                          Inl e \<Rightarrow> Inl e
                        | Inr top_tag \<Rightarrow>
                            if top_tag = tag_name then
                              (case pop open_tags of
                                 Inl e \<Rightarrow> Inl e
                               | Inr popped \<Rightarrow>
                                   Inr (i + tag_length,
                                        current_part @ take tag_length (drop i text), popped))
                            else Inr (i + tag_length,
                                      current_part @ take tag_length (drop i text), open_tags))
                     else Inr (i + tag_length,
                               current_part @ take tag_length (drop i text), open_tags)
                 | None \<Rightarrow> plain))
         else plain)"

definition loop_body_checked ::
  "string \<Rightarrow> int \<Rightarrow> nat \<Rightarrow> string \<Rightarrow> string list \<Rightarrow> string list
     \<Rightarrow> error + nat \<times> string \<times> string list \<times> string list" where
  \<comment> \<open>one pass of \<open>while i < len(text)\<close>\<close>
  "loop_body_checked text max_length i current_part open_tags parts =
     (case (if max_length \<le> int (length current_part)
            then flush_part max_length current_part open_tags parts
            else (parts, current_part)) of
        (parts1, current_part1) \<Rightarrow>
          (case scan_tag_checked text i current_part1 open_tags of
             Inl e \<Rightarrow> Inl e
           | Inr (i2, current_part2, open_tags2) \<Rightarrow>
               Inr (i2, current_part2, open_tags2, parts1)))"

lemma scan_tag_checked_eq:
  "scan_tag_checked text i c t =
     (if i < length text then Inr (scan_tag text i c t) else Inl IndexError)"
  by (auto simp: scan_tag_checked_def scan_tag_def getitem_def getitem_last_def pop_def
        split: option.splits)

lemma loop_body_checked_eq:
  "loop_body_checked text m i c t p =
     (if i < length text then Inr (loop_body text m i c t p) else Inl IndexError)"
  by (auto simp: loop_body_checked_def loop_body_def scan_tag_checked_eq split: prod.splits)

lemma loop_body_checked_measure:
  "i < length text \<Longrightarrow> loop_body_checked text m i c t p = Inr (i2, c2, t2, p2) \<Longrightarrow>
     length text - i2 < length text - i"
proof -
  assume less: "i < length text"
    and "loop_body_checked text m i c t p = Inr (i2, c2, t2, p2)"
  then have "loop_body text m i c t p = (i2, c2, t2, p2)"
    by (simp add: loop_body_checked_eq)
  from loop_body_advances [OF this] less show ?thesis
    by simp
qed

function split_loop_checked ::
  "string \<Rightarrow> int \<Rightarrow> nat \<Rightarrow> string \<Rightarrow> string list \<Rightarrow> string list \<Rightarrow> error + string list" where
  "split_loop_checked text max_length i current_part open_tags parts =
     (if i < length text then
        (case loop_body_checked text max_length i current_part open_tags parts of
           Inl e \<Rightarrow> Inl e
         | Inr (i2, current_part2, open_tags2, parts2) \<Rightarrow>
             split_loop_checked text max_length i2 current_part2 open_tags2 parts2)
      else Inr (if current_part \<noteq> [] then parts @ [current_part] else parts))"
  by pat_completeness auto
termination
  by (relation "measure (\<lambda>(text, max_length, i, rest). length text - i)")
     (auto simp: loop_body_checked_measure)

definition split_response_checked :: "int \<Rightarrow> string \<Rightarrow> int option \<Rightarrow> error + string list" where
  "split_response_checked MAX_MESSAGE_LENGTH text max_length_arg =
     (let max_length = (case max_length_arg of None \<Rightarrow> MAX_MESSAGE_LENGTH | Some n \<Rightarrow> n)
      in if int (length text) \<le> max_length then Inr [text]
         else split_loop_checked text max_length 0 [] [] [])"


section \<open>user_manager.py: UserManager\<close>

text \<open>
  The users dictionary is a finite map from the user id string to the user's record.
  \<open>datetime.now().isoformat()\<close> is passed in as \<open>now\<close> and \<open>str\<close> as \<open>str\<close>.
  \<open>save_users\<close> writes the data file, catches every exception and never touches
  \<open>self.users\<close>; the file is not part of the state.  \<open>load_users\<close> is run by the
  constructor and is not among the operations below.
\<close>

record user_record =
  user_id :: string
  username :: "string option"
  first_name :: string
  joined_at :: string
  total_tokens :: int
  last_activity :: string

record user_manager =
  admin_id :: string
  max_users :: int
  data_file :: string
  users :: "(string, user_record) fmap"

definition is_authorized :: "('u \<Rightarrow> string) \<Rightarrow> user_manager \<Rightarrow> 'u \<Rightarrow> bool" where
  "is_authorized str self uid = (str uid |\<in>| fmdom (users self))"

definition get_user_count :: "user_manager \<Rightarrow> nat" where
  "get_user_count self = fcard (fmdom (users self))"

definition can_accept_new_user :: "user_manager \<Rightarrow> bool" where
  "can_accept_new_user self = (int (fcard (fmdom (users self))) < max_users self)"

definition add_user ::
  "('u \<Rightarrow> string) \<Rightarrow> string \<Rightarrow> user_manager \<Rightarrow> 'u \<Rightarrow> string option \<Rightarrow> string option
     \<Rightarrow> bool \<times> user_manager" where
  "add_user str now self uid uname fname =
     (let user_id_str = str uid
      in if user_id_str |\<in>| fmdom (users self) then (False, self)
         else if \<not> can_accept_new_user self then (False, self)
         else
           (True,
            self\<lparr>users :=
              fmupd user_id_str
                \<lparr>user_id = user_id_str,
                 username = uname,
                 first_name =
                   (case fname of
                      None \<Rightarrow> ''Unknown''
                    | Some n \<Rightarrow> if n = [] then ''Unknown'' else n),
                 joined_at = now,
                 total_tokens = 0,
                 last_activity = now\<rparr>
                (users self)\<rparr>))"

definition update_tokens :: "('u \<Rightarrow> string) \<Rightarrow> user_manager \<Rightarrow> 'u \<Rightarrow> int \<Rightarrow> user_manager" where
  "update_tokens str self uid tokens_used =
     (let user_id_str = str uid
      in case fmlookup (users self) user_id_str of
           None \<Rightarrow> self
         | Some r \<Rightarrow>
             self\<lparr>users :=
               fmupd user_id_str (r\<lparr>total_tokens := total_tokens r + tokens_used\<rparr>)
                 (users self)\<rparr>)"

definition update_last_activity ::
  "('u \<Rightarrow> string) \<Rightarrow> string \<Rightarrow> user_manager \<Rightarrow> 'u \<Rightarrow> user_manager" where
  "update_last_activity str now self uid =
     (let user_id_str = str uid
      in case fmlookup (users self) user_id_str of
           None \<Rightarrow> self
         | Some r \<Rightarrow>
             self\<lparr>users := fmupd user_id_str (r\<lparr>last_activity := now\<rparr>) (users self)\<rparr>)"

datatype 'u operation =
    AddUser 'u "string option" "string option" string
  | UpdateTokens 'u int
  | UpdateLastActivity 'u string

fun perform :: "('u \<Rightarrow> string) \<Rightarrow> user_manager \<Rightarrow> 'u operation \<Rightarrow> user_manager" where
  \<comment> \<open>the manager after one call of a state-changing method\<close>
  "perform str self (AddUser uid uname fname now) = snd (add_user str now self uid uname fname)"
| "perform str self (UpdateTokens uid tokens_used) = update_tokens str self uid tokens_used"
| "perform str self (UpdateLastActivity uid now) = update_last_activity str now self uid"

definition within_limit :: "user_manager \<Rightarrow> bool" where
  "within_limit self = (int (fcard (fmdom (users self))) \<le> max_users self)"

section \<open>Properties of combine_messages\<close>

lemma match_ws_dollar_iff: "match_ws_dollar cs \<longleftrightarrow> (\<forall>x\<in>set cs. py_isspace x)"
  by (induction cs) (auto simp: py_isspace_def)

lemma rstrip_ws_Nil_iff: "rstrip_ws cs = [] \<longleftrightarrow> (\<forall>x\<in>set cs. py_isspace x)"
  by (simp add: rstrip_ws_def)

lemma rstrip_ws_Cons:
  "rstrip_ws (c # cs) =
     (if \<forall>x\<in>set cs. py_isspace x then (if py_isspace c then [] else [c]) else c # rstrip_ws cs)"
  by (auto simp: rstrip_ws_def dropWhile_append)

lemma endswith_single: "endswith t [c] \<longleftrightarrow> t \<noteq> [] \<and> last t = c"
proof (cases t rule: rev_cases)
  case Nil
  then show ?thesis by (simp add: endswith_def)
next
  case (snoc ys y)
  then show ?thesis by (auto simp: endswith_def)
qed

lemma punct_not_space:
  "\<not> py_isspace CHR ''.''" "\<not> py_isspace CHR ''!''" "\<not> py_isspace CHR ''?''"
  "\<not> py_isspace CHR ''-''"
  by (simp_all add: py_isspace_def)

lemma ends_with_punct_iff: "ends_with_punct s = endsWithSentencePunct s"
proof (induction s)
  case Nil
  show ?case by (simp add: endsWithSentencePunct_def rstrip_ws_def endswith_def)
next
  case (Cons c cs)
  show ?case
  proof (cases "\<forall>x\<in>set cs. py_isspace x")
    case True
    then have "rstrip_ws cs = []" by (simp add: rstrip_ws_Nil_iff)
    then have "\<not> ends_with_punct cs"
      using Cons.IH by (simp add: endsWithSentencePunct_def endswith_single)
    with True show ?thesis
      using punct_not_space
      by (auto simp: endsWithSentencePunct_def endswith_single rstrip_ws_Cons
            match_ws_dollar_iff)
  next
    case False
    then have ne: "rstrip_ws cs \<noteq> []" by (simp add: rstrip_ws_Nil_iff)
    from False have "\<not> (\<forall>x\<in>set cs. py_isspace x)" by simp
    then have r: "rstrip_ws (c # cs) = c # rstrip_ws cs"
      by (simp only: rstrip_ws_Cons if_False)
    from False have m: "\<not> match_ws_dollar cs" by (simp add: match_ws_dollar_iff)
    have "endsWithSentencePunct (c # cs) = endsWithSentencePunct cs"
      using ne by (simp add: endsWithSentencePunct_def endswith_single r)
    with m Cons.IH show ?thesis by simp
  qed
qed

lemma starts_with_lowercase_iff:
  "starts_with_lowercase s = startsLowercaseOrContinuation is_lower_az s"
  by (cases s) (auto simp: starts_with_lowercase_def startsLowercaseOrContinuation_def)

lemma last_dropWhile: "dropWhile P t \<noteq> [] \<Longrightarrow> last (dropWhile P t) = last t"
  by (induction t) (auto split: if_splits)

lemma dropWhile_keeps_last: "t \<noteq> [] \<Longrightarrow> \<not> P (last t) \<Longrightarrow> dropWhile P t \<noteq> []"
  by (induction t) (auto split: if_splits)

lemma strip_hyphen_iff: "endswith (strip_ws s) ''-'' = endswith (rstrip_ws s) ''-''"
proof
  assume "endswith (strip_ws s) ''-''"
  then have ne: "dropWhile py_isspace (rstrip_ws s) \<noteq> []"
    and l: "last (dropWhile py_isspace (rstrip_ws s)) = CHR ''-''"
    by (simp_all add: strip_ws_def endswith_single)
  from ne have "rstrip_ws s \<noteq> []" by auto
  moreover from last_dropWhile [OF ne] l have "last (rstrip_ws s) = CHR ''-''" by simp
  ultimately show "endswith (rstrip_ws s) ''-''" by (simp add: endswith_single)
next
  assume "endswith (rstrip_ws s) ''-''"
  then have ne: "rstrip_ws s \<noteq> []" and l: "last (rstrip_ws s) = CHR ''-''"
    by (simp_all add: endswith_single)
  from l have "\<not> py_isspace (last (rstrip_ws s))" by (simp add: punct_not_space)
  from dropWhile_keeps_last [of "rstrip_ws s" py_isspace, OF ne this]
  have ne2: "dropWhile py_isspace (rstrip_ws s) \<noteq> []" .
  from last_dropWhile [OF ne2] l ne2 show "endswith (strip_ws s) ''-''"
    by (simp add: strip_ws_def endswith_single)
qed

lemma combine_body_join:
  "combine_body texts i acc = join_pair is_lower_az acc (texts ! (i - 1)) (texts ! i)"
  by (simp add: combine_body_def join_pair_def ends_with_punct_iff
        starts_with_lowercase_iff strip_hyphen_iff)

lemma upt_step: "[Suc n ..< Suc n + Suc k] = Suc n # [Suc (Suc n) ..< Suc (Suc n) + k]"
  by (subst upt_conv_Cons) simp_all

lemma fold_combine_body:
  "fold (combine_body (pre @ p # rest)) [Suc (length pre) ..< Suc (length pre) + length rest] acc
     = coalesce_pairs is_lower_az acc p rest"
proof (induction rest arbitrary: pre p acc)
  case Nil
  show ?case by simp
next
  case (Cons c r)
  have body: "combine_body (pre @ p # c # r) (Suc (length pre)) acc
      = join_pair is_lower_az acc p c"
    by (simp add: combine_body_join nth_append)
  have "fold (combine_body (pre @ p # c # r))
          [Suc (length pre) ..< Suc (length pre) + length (c # r)] acc
      = fold (combine_body ((pre @ [p]) @ c # r))
          [Suc (length (pre @ [p])) ..< Suc (length (pre @ [p])) + length r]
          (join_pair is_lower_az acc p c)"
    using upt_step [of "length pre" "length r"] body by simp
  also have "\<dots> = coalesce_pairs is_lower_az (join_pair is_lower_az acc p c) c r"
    by (rule Cons.IH)
  finally show ?case by simp
qed

text \<open>
  Claim C9.  Called with no fragments, \<open>combine_messages\<close> does not fail: it returns the
  empty string together with the empty id list.
\<close>

theorem combine_messages_empty: "combine_messages [] = ('''', [])"
  by (simp add: combine_messages_def)

text \<open>
  Claim C4, as stated: on the fragments \<open>("This is a well-", 1)\<close> and
  \<open>("known fact.", 2)\<close> the result is \<open>"This is a well-known fact."\<close> with ids
  \<open>[1, 2]\<close>.  The code does not return that text.
\<close>

theorem combine_messages_hyphen_kept_refuted:
  "combine_messages [(''This is a well-'', 1 :: nat), (''known fact.'', 2)]
     \<noteq> (''This is a well-known fact.'', [1, 2])"
  by code_simp

text \<open>
  Claim C4, amended: on the same two fragments the trailing hyphen is stripped from the
  accumulated text and the second text is appended with no space, so the result is
  \<open>"This is a wellknown fact."\<close> with ids \<open>[1, 2]\<close>.
\<close>

theorem combine_messages_hyphen_stripped:
  "combine_messages [(''This is a well-'', 1 :: nat), (''known fact.'', 2)]
     = (''This is a wellknown fact.'', [1, 2])"
  by code_simp

text \<open>
  Claim C5, as stated: each adjacent pair is a continuation when the previous text,
  right-trimmed, does not end with one of \<open>. ! ?\<close> or the current text's first character
  is a lowercase letter, comma, semicolon or colon.  The code tests the first character
  with the class \<open>[a-z,;:]\<close>, so a lowercase letter outside \<open>a\<close> to \<open>z\<close> does not make a
  continuation: after \<open>"Done."\<close> a fragment whose first character is the
  lowercase letter e with acute accent (code point 233) is appended after two newlines,
  where the rule as stated joins it after a space.
\<close>

theorem combine_messages_lowercase_refuted:
  "is_lowercase_letter (CHR 0xE9)
   \<and> combine_messages [(''Done.'', 1 :: nat), ([CHR 0xE9, CHR ''t'', CHR 0xE9], 2)]
       = (''Done.'' @ [CHR 0x0A, CHR 0x0A] @ [CHR 0xE9, CHR ''t'', CHR 0xE9], [1, 2])
   \<and> coalesce_pairs is_lowercase_letter ''Done.'' ''Done.'' [[CHR 0xE9, CHR ''t'', CHR 0xE9]]
       = ''Done. '' @ [CHR 0xE9, CHR ''t'', CHR 0xE9]
   \<and> combine_messages [(''Done.'', 1 :: nat), ([CHR 0xE9, CHR ''t'', CHR 0xE9], 2)]
       \<noteq> (coalesce_pairs is_lowercase_letter ''Done.'' ''Done.''
            [[CHR 0xE9, CHR ''t'', CHR 0xE9]], [1, 2])"
  by code_simp

text \<open>
  Claim C5, amended: for a fragment sequence of length at least two, \<open>combine_messages\<close>
  decides each adjacent pair left to right by \<open>join_pair is_lower_az\<close>: when the previous
  fragment's text, right-trimmed, does not end with one of \<open>. ! ?\<close>, or the current text
  starts with one of the letters \<open>a\<close> to \<open>z\<close>, a comma, a semicolon or a colon, the current
  text is appended as a continuation (after a space, or directly onto the accumulated
  text stripped of its trailing hyphens when the previous text right-trimmed ends with a
  hyphen); otherwise it is appended after two newlines.  The ids are returned in order.
\<close>

theorem combine_messages_pairwise:
  assumes "2 \<le> length messages"
  shows "combine_messages messages =
    (coalesce_pairs is_lower_az (fst (hd messages)) (fst (hd messages))
       (map fst (tl messages)),
     map snd messages)"
proof -
  from assms obtain m ms where ms: "messages = m # ms"
    by (cases messages) auto
  with assms have ne: "ms \<noteq> []"
    by (cases ms) auto
  have "fold (combine_body ([] @ fst m # map fst ms))
          [Suc (length ([] :: string list)) ..<
             Suc (length ([] :: string list)) + length (map fst ms)] (fst m)
      = coalesce_pairs is_lower_az (fst m) (fst m) (map fst ms)"
    by (rule fold_combine_body)
  then show ?thesis
    using ms ne by (simp add: combine_messages_def)
qed

theorem combine_messages_pairwise_witness:
  "combine_messages [(''Done.'', 1 :: nat), (''Next topic.'', 2), (''and more'', 3)]
     = (''Done.'' @ [CHR 0x0A, CHR 0x0A] @ ''Next topic. and more'', [1, 2, 3])"
proof -
  have len: "2 \<le> length [(''Done.'', 1 :: nat), (''Next topic.'', 2), (''and more'', 3)]"
    by simp
  have "coalesce_pairs is_lower_az ''Done.'' ''Done.'' [''Next topic.'', ''and more'']
      = ''Done.'' @ [CHR 0x0A, CHR 0x0A] @ ''Next topic. and more''"
    by code_simp
  with combine_messages_pairwise [OF len] show ?thesis
    by simp
qed

section \<open>Properties of split_response\<close>

text \<open>
  Claim C7.  When \<open>len(s) <= n\<close>, \<open>split_response(s, n)\<close> is exactly \<open>[s]\<close>.
\<close>

theorem split_response_identity:
  "int (length s) \<le> n \<Longrightarrow> split_response MAX_MESSAGE_LENGTH s (Some n) = [s]"
  by (simp add: split_response_def)

theorem split_response_identity_witness:
  "split_response 4000 ''<b>hi</b>'' (Some 9) = [''<b>hi</b>'']"
proof -
  have "int (length ''<b>hi</b>'') \<le> 9" by simp
  then show ?thesis by (rule split_response_identity)
qed

text \<open>
  Claim C1 fails on the code.  For the well-formed text \<open>a <b>c</b>\<close> and limit 6 the
  buffer is cut after the space, before the tag that was opened later; the stack at the
  scan position is used for both chunks.  The first chunk closes a tag it never opened
  and the second, read on its own, ends with \<open>b\<close> still open.
\<close>

theorem split_response_chunk_unbalanced:
  "split_response 4000 ''a <b>c</b>'' (Some 6) = [''a </b>'', ''<b><b>c</b>'']
   \<and> scan_chunk ''a <b>c</b>'' 0 [] = []
   \<and> scan_chunk ''<b><b>c</b>'' 0 [] = [''b'']"
  by code_simp

text \<open>
  Claim C2 fails on the code.  For the text \<open><b>abcdefgh</b>\<close> and limit 10 the buffer
  is cut at 10 characters and the closing tag is appended after the cut: the first chunk
  has 14 characters.
\<close>

theorem split_response_chunk_too_long:
  "split_response 4000 ''<b>abcdefgh</b>'' (Some 10) = [''<b>abcdefg</b>'', ''<b>h</b>'']
   \<and> map length (split_response 4000 ''<b>abcdefgh</b>'' (Some 10)) = [14, 8]"
  by code_simp

text \<open>
  Claim C3 fails on the code.  For the text \<open><a href=x>bcdefghijklmnopq</a>\<close> and limit
  20 the rightmost space of the buffer lies inside the opening tag, the buffer is cut
  there, and the rest of the tag becomes visible text of the second chunk.
\<close>

theorem split_response_visible_text_changed:
  "split_response 4000 ''<a href=x>bcdefghijklmnopq</a>'' (Some 20)
     = [''<a </a>'', ''<a>href=x>bcdefghijkl</a>'', ''<a>mnopq</a>'']
   \<and> visible_text ''<a href=x>bcdefghijklmnopq</a>'' 0 = ''bcdefghijklmnopq''
   \<and> visible_text
       (concat (split_response 4000 ''<a href=x>bcdefghijklmnopq</a>'' (Some 20))) 0
     = ''href=x>bcdefghijklmnopq''"
  by code_simp

subsection \<open>Runs of the loop\<close>

lemma split_loop_unfold:
  "i < length txt \<Longrightarrow> loop_body txt m i c t p = (i2, c2, t2, p2) \<Longrightarrow>
     split_loop txt m i c t p = split_loop txt m i2 c2 t2 p2"
  by (subst split_loop.simps) simp

lemma split_loop_end:
  "\<not> i < length txt \<Longrightarrow> split_loop txt m i c t p = (if c \<noteq> [] then p @ [c] else p)"
  by (subst split_loop.simps) simp

lemma split_loop_state_after:
  "state_after txt m n = (i, c, t, p) \<Longrightarrow>
     split_loop txt m i c t p = split_loop txt m 0 [] [] []"
proof (induction n arbitrary: i c t p)
  case 0
  then show ?case by simp
next
  case (Suc n)
  obtain i0 c0 t0 p0 where st: "state_after txt m n = (i0, c0, t0, p0)"
    by (cases "state_after txt m n") auto
  from Suc.IH [OF st] have ih: "split_loop txt m i0 c0 t0 p0 = split_loop txt m 0 [] [] []" .
  show ?case
  proof (cases "i0 < length txt")
    case True
    with Suc.prems st have "loop_body txt m i0 c0 t0 p0 = (i, c, t, p)" by simp
    from split_loop_unfold [OF True this] ih show ?thesis by simp
  next
    case False
    with Suc.prems st ih show ?thesis by simp
  qed
qed



subsection \<open>The break point\<close>

lemma rfind_rightmost:
  "rfind s c = (case rightmost (\<lambda>x. x = c) s of None \<Rightarrow> - 1 | Some k \<Rightarrow> int k)"
  by (induction s) (auto simp: Let_def split: option.splits)

lemma rfind_ge: "- 1 \<le> rfind s c"
  by (simp add: rfind_rightmost split: option.splits)

lemma rightmost_less: "rightmost P s = Some k \<Longrightarrow> k < length s"
  by (induction s arbitrary: k) (auto split: option.splits if_splits)

lemma rightmost_holds: "rightmost P s = Some k \<Longrightarrow> P (s ! k)"
  by (induction s arbitrary: k) (auto split: option.splits if_splits)

lemma rightmost_None: "rightmost P s = None \<Longrightarrow> m < length s \<Longrightarrow> \<not> P (s ! m)"
proof (induction s arbitrary: m)
  case Nil
  then show ?case by simp
next
  case (Cons y ys)
  then show ?case
    by (cases m) (auto split: option.splits if_splits)
qed

lemma rightmost_last:
  "rightmost P s = Some k \<Longrightarrow> k < j \<Longrightarrow> j < length s \<Longrightarrow> \<not> P (s ! j)"
proof (induction s arbitrary: k j)
  case Nil
  then show ?case by simp
next
  case (Cons x xs)
  show ?case
  proof (cases "rightmost P xs")
    case None
    with Cons.prems rightmost_None [OF None] show ?thesis
      by (cases j) auto
  next
    case (Some k')
    with Cons.prems have k: "k = Suc k'" by simp
    with Cons.prems obtain j' where j: "j = Suc j'" by (cases j) auto
    with Cons.IH [OF Some, of j'] Cons.prems k show ?thesis by simp
  qed
qed

lemma max_rfind:
  "max (rfind s CHR ''.'') (max (rfind s CHR ''!'') (rfind s CHR ''?''))
     = (case rightmost is_sentence_end s of None \<Rightarrow> - 1 | Some k \<Rightarrow> int k)"
proof (induction s)
  case Nil
  show ?case by simp
next
  case (Cons x xs)
  note a = rfind_ge [of xs "CHR ''.''"] rfind_ge [of xs "CHR ''!''"] rfind_ge [of xs "CHR ''?''"]
  have x: "is_sentence_end x \<longleftrightarrow> x = CHR ''.'' \<or> x = CHR ''!'' \<or> x = CHR ''?''"
    by (simp add: is_sentence_end_def)
  show ?case
  proof (cases "rightmost is_sentence_end xs")
    case None
    with Cons.IH a have "rfind xs CHR ''.'' = - 1" "rfind xs CHR ''!'' = - 1"
      "rfind xs CHR ''?'' = - 1"
      by simp_all
    with None show ?thesis
      by (simp add: x)
  next
    case (Some k)
    with Cons.IH have m: "max (rfind xs CHR ''.'') (max (rfind xs CHR ''!'') (rfind xs CHR ''?''))
        = int k"
      by simp
    then have "max (rfind (x # xs) CHR ''.'') (max (rfind (x # xs) CHR ''!'') (rfind (x # xs) CHR ''?''))
        = int k + 1"
      using a by (simp add: Let_def max_def split: if_splits)
    with Some show ?thesis by simp
  qed
qed

lemma find_break_unfold:
  "find_break current_part max_length =
     (let break_pos = (case rightmost is_sentence_end current_part of
                         None \<Rightarrow> - 1 | Some k \<Rightarrow> int k);
          break_pos = (if break_pos = - 1 \<or> break_pos < max_length - 200
                       then (case rightmost (\<lambda>x. x = CHR '' '') current_part of
                               None \<Rightarrow> - 1 | Some k \<Rightarrow> int k)
                       else break_pos);
          break_pos = (if break_pos = - 1 \<or> break_pos < max_length - 300
                       then int (length current_part) - 1 else break_pos)
      in break_pos + 1)"
  by (simp only: find_break_def max_rfind) (simp only: rfind_rightmost)

lemma find_break_chosen:
  "find_break current_part max_length = int (chosen_break current_part max_length)"
proof -
  let ?s = "rightmost is_sentence_end current_part"
  let ?w = "rightmost (\<lambda>c. c = CHR '' '') current_part"
  show ?thesis
  proof (cases ?s)
    case None
    then show ?thesis
      by (cases ?w)
         (simp_all add: find_break_unfold chosen_break_def not_too_early_def Let_def)
  next
    case (Some k)
    show ?thesis
    proof (cases "int k < max_length - 200")
      case True
      with Some show ?thesis
        by (cases ?w)
           (simp_all add: find_break_unfold chosen_break_def not_too_early_def Let_def)
    next
      case False
      then have "\<not> int k < max_length - 300" by simp
      with False Some show ?thesis
        by (simp add: find_break_unfold chosen_break_def not_too_early_def Let_def)
    qed
  qed
qed

lemma flush_part_chosen:
  "flush_part max_length current_part open_tags parts =
     (parts @ [take (chosen_break current_part max_length) current_part @ closing_tags open_tags],
      opening_tags open_tags @ drop (chosen_break current_part max_length) current_part)"
  by (simp add: flush_part_def find_break_chosen slice_to_def slice_from_def Let_def)





subsection \<open>Closing tags that do not match the stack\<close>

lemma not_alpha_slash: "\<not> is_alpha_az CHR ''/''"
  by (simp add: is_alpha_az_def)

lemma close_tag_match_shape:
  assumes "close_tag_match s = Some (tag_name, tag_length)"
  shows "open_tag_match s = None \<and> take 1 s = ''<''
    \<and> take tag_length s = ''</'' @ tag_name @ ''>''
    \<and> tag_length = length tag_name + 3"
proof -
  from assms obtain c rest where s: "s = CHR ''<'' # CHR ''/'' # c # rest"
    and c: "is_alpha_az c"
    by (auto simp: close_tag_match_def split: list.splits if_splits)
  define tw where "tw = takeWhile is_alnum_az rest"
  from assms s c obtain more where d: "dropWhile is_alnum_az rest = CHR ''>'' # more"
    and n: "tag_name = c # tw"
    and l: "tag_length = length tag_name + 3"
    by (auto simp: close_tag_match_def Let_def tw_def split: list.splits if_splits)
  have rest: "rest = tw @ CHR ''>'' # more"
    by (metis d takeWhile_dropWhile_id tw_def)
  have s': "s = CHR ''<'' # CHR ''/'' # c # tw @ CHR ''>'' # more"
    unfolding s by (subst rest) simp
  have 1: "open_tag_match s = None"
    unfolding s by (simp add: open_tag_match_def not_alpha_slash)
  have 2: "take 1 s = ''<''"
    unfolding s by simp
  have len: "length tag_name + 3 = Suc (Suc (Suc (Suc (length tw))))"
    by (simp add: n)
  have 3: "take tag_length s = ''</'' @ tag_name @ ''>''"
    unfolding l len unfolding n s' by simp
  from 1 2 3 l show ?thesis by simp
qed

lemma scan_tag_unmatched_close:
  assumes m: "close_tag_match (drop i text) = Some (tag_name, tag_length)"
    and u: "open_tags = [] \<or> last open_tags \<noteq> tag_name"
  shows "scan_tag text i current_part open_tags
    = (i + tag_length, current_part @ ''</'' @ tag_name @ ''>'', open_tags)"
  using close_tag_match_shape [OF m] m u
  by (auto simp: scan_tag_def)

lemma occurs_in_iff: "occurs_in t s \<longleftrightarrow> (\<exists>pre post. s = pre @ t @ post)"
proof (induction s)
  case Nil
  show ?case by auto
next
  case (Cons x xs)
  show ?case
  proof
    assume "occurs_in t (x # xs)"
    then consider "take (length t) (x # xs) = t" | "occurs_in t xs" by auto
    then show "\<exists>pre post. x # xs = pre @ t @ post"
    proof cases
      case 1
      then have "x # xs = [] @ t @ drop (length t) (x # xs)"
        by (metis append_Nil append_take_drop_id)
      then show ?thesis by blast
    next
      case 2
      with Cons.IH obtain pre post where "xs = pre @ t @ post" by blast
      then have "x # xs = (x # pre) @ t @ post" by simp
      then show ?thesis by blast
    qed
  next
    assume "\<exists>pre post. x # xs = pre @ t @ post"
    then obtain pre post where e: "x # xs = pre @ t @ post" by blast
    show "occurs_in t (x # xs)"
    proof (cases pre)
      case Nil
      with e have "take (length t) (x # xs) = t" by simp
      then show ?thesis by simp
    next
      case (Cons y ys)
      with e have "xs = ys @ t @ post" by simp
      with Cons.IH have "occurs_in t xs" by blast
      then show ?thesis by simp
    qed
  qed
qed

lemma occurs_in_appendI1: "occurs_in t a \<Longrightarrow> occurs_in t (a @ b)"
proof -
  assume "occurs_in t a"
  then obtain pre post where "a = pre @ t @ post" by (auto simp: occurs_in_iff)
  then have "a @ b = pre @ t @ (post @ b)" by simp
  then show ?thesis unfolding occurs_in_iff by blast
qed

lemma occurs_in_appendI2: "occurs_in t b \<Longrightarrow> occurs_in t (a @ b)"
proof -
  assume "occurs_in t b"
  then obtain pre post where "b = pre @ t @ post" by (auto simp: occurs_in_iff)
  then have "a @ b = (a @ pre) @ t @ post" by simp
  then show ?thesis unfolding occurs_in_iff by blast
qed

lemma chosen_break_cases:
  "chosen_break buf m = length buf
   \<or> (\<exists>k<length buf. chosen_break buf m = Suc k
         \<and> (is_sentence_end (buf ! k) \<or> buf ! k = CHR '' ''))"
  by (auto simp: chosen_break_def not_too_early_def
        split: option.splits if_splits
        dest: rightmost_less rightmost_holds)

lemma chosen_break_keeps:
  assumes ok: "\<forall>x\<in>set tg. \<not> is_sentence_end x \<and> x \<noteq> CHR '' ''"
    and occ: "occurs_in tg buf"
  shows "occurs_in tg (take (chosen_break buf m) buf)
    \<or> occurs_in tg (drop (chosen_break buf m) buf)"
proof -
  from occ obtain pre post where buf: "buf = pre @ tg @ post"
    by (auto simp: occurs_in_iff)
  from chosen_break_cases [of buf m] show ?thesis
  proof
    assume "chosen_break buf m = length buf"
    with occ show ?thesis by simp
  next
    assume "\<exists>k<length buf. chosen_break buf m = Suc k
         \<and> (is_sentence_end (buf ! k) \<or> buf ! k = CHR '' '')"
    then obtain k where k: "k < length buf" and cb: "chosen_break buf m = Suc k"
      and pk: "is_sentence_end (buf ! k) \<or> buf ! k = CHR '' ''" by blast
    have out: "k < length pre \<or> length pre + length tg \<le> k"
    proof (rule ccontr)
      assume "\<not> ?thesis"
      then have a: "length pre \<le> k" and b: "k - length pre < length tg" by auto
      then have "buf ! k = tg ! (k - length pre)"
        by (simp add: buf nth_append)
      moreover from b have "tg ! (k - length pre) \<in> set tg" by simp
      ultimately show False using ok pk by auto
    qed
    then show ?thesis
    proof
      assume "k < length pre"
      then have "drop (Suc k) buf = drop (Suc k) pre @ tg @ post"
        by (simp add: buf)
      then have "occurs_in tg (drop (Suc k) buf)"
        unfolding occurs_in_iff by blast
      with cb show ?thesis by simp
    next
      assume "length pre + length tg \<le> k"
      then have "take (Suc k) buf = pre @ tg @ take (Suc k - length pre - length tg) post"
        by (simp add: buf)
      then have "occurs_in tg (take (Suc k) buf)"
        unfolding occurs_in_iff by blast
      with cb show ?thesis by simp
    qed
  qed
qed

lemma scan_tag_appends:
  "scan_tag txt i c t = (i2, c2, t2) \<Longrightarrow> \<exists>s. c2 = c @ s"
  by (auto simp: scan_tag_def split: if_splits option.splits)

lemma loop_body_keeps:
  assumes ok: "\<forall>x\<in>set tg. \<not> is_sentence_end x \<and> x \<noteq> CHR '' ''"
    and inv: "occurs_in tg c \<or> (\<exists>x\<in>set p. occurs_in tg x)"
    and lb: "loop_body txt m i c t p = (i2, c2, t2, p2)"
  shows "occurs_in tg c2 \<or> (\<exists>x\<in>set p2. occurs_in tg x)"
proof (cases "m \<le> int (length c)")
  case True
  let ?k = "chosen_break c m"
  from True lb have sc: "scan_tag txt i (opening_tags t @ drop ?k c) t = (i2, c2, t2)"
    and p2: "p2 = p @ [take ?k c @ closing_tags t]"
    by (auto simp: loop_body_def flush_part_chosen split: prod.splits)
  from scan_tag_appends [OF sc] obtain s where c2: "c2 = (opening_tags t @ drop ?k c) @ s"
    by blast
  from inv show ?thesis
  proof
    assume "occurs_in tg c"
    from chosen_break_keeps [OF ok this, of m] show ?thesis
    proof
      assume "occurs_in tg (take ?k c)"
      then have "occurs_in tg (take ?k c @ closing_tags t)" by (rule occurs_in_appendI1)
      with p2 show ?thesis by auto
    next
      assume "occurs_in tg (drop ?k c)"
      then have "occurs_in tg (opening_tags t @ drop ?k c)" by (rule occurs_in_appendI2)
      then have "occurs_in tg c2" unfolding c2 by (rule occurs_in_appendI1)
      then show ?thesis by simp
    qed
  next
    assume "\<exists>x\<in>set p. occurs_in tg x"
    with p2 show ?thesis by auto
  qed
next
  case False
  with lb have sc: "scan_tag txt i c t = (i2, c2, t2)" and p2: "p2 = p"
    by (auto simp: loop_body_def split: prod.splits)
  from scan_tag_appends [OF sc] obtain s where c2: "c2 = c @ s" by blast
  from inv show ?thesis
  proof
    assume "occurs_in tg c"
    then have "occurs_in tg c2" unfolding c2 by (rule occurs_in_appendI1)
    then show ?thesis by simp
  next
    assume "\<exists>x\<in>set p. occurs_in tg x"
    with p2 show ?thesis by simp
  qed
qed

lemma split_loop_keeps:
  assumes ok: "\<forall>x\<in>set tg. \<not> is_sentence_end x \<and> x \<noteq> CHR '' ''"
    and ne: "tg \<noteq> []"
  shows "occurs_in tg c \<or> (\<exists>x\<in>set p. occurs_in tg x) \<Longrightarrow>
    \<exists>x\<in>set (split_loop txt m i c t p). occurs_in tg x"
proof (induction "length txt - i" arbitrary: i c t p rule: less_induct)
  case less
  show ?case
  proof (cases "i < length txt")
    case True
    obtain i2 c2 t2 p2 where lb: "loop_body txt m i c t p = (i2, c2, t2, p2)"
      by (cases "loop_body txt m i c t p") auto
    from loop_body_advances [OF lb] True have d: "length txt - i2 < length txt - i" by simp
    from loop_body_keeps [OF ok less.prems lb]
    have "occurs_in tg c2 \<or> (\<exists>x\<in>set p2. occurs_in tg x)" .
    from less.hyps [OF d this] split_loop_unfold [OF True lb] show ?thesis by simp
  next
    case False
    from less.prems show ?thesis
    proof
      assume o: "occurs_in tg c"
      with ne have "c \<noteq> []" by (cases c) auto
      with o False show ?thesis by (simp add: split_loop_end)
    next
      assume "\<exists>x\<in>set p. occurs_in tg x"
      with False show ?thesis by (auto simp: split_loop_end)
    qed
  qed
qed

lemma alnum_not_break: "is_alnum_az x \<Longrightarrow> \<not> is_sentence_end x \<and> x \<noteq> CHR '' ''"
  by (auto simp: is_alnum_az_def is_alpha_az_def is_sentence_end_def)

lemma close_tag_chars:
  assumes "close_tag_match s = Some (tag_name, tag_length)"
  shows "\<forall>x\<in>set (''</'' @ tag_name @ ''>''). \<not> is_sentence_end x \<and> x \<noteq> CHR '' ''"
proof -
  from assms obtain c rest where c: "is_alpha_az c"
    and n: "tag_name = c # takeWhile is_alnum_az rest"
    by (auto simp: close_tag_match_def Let_def split: list.splits if_splits)
  from c have "is_alnum_az c" by (simp add: is_alnum_az_def)
  with n have "\<forall>x\<in>set tag_name. is_alnum_az x"
    by (auto dest: set_takeWhileD)
  then have "\<forall>x\<in>set tag_name. \<not> is_sentence_end x \<and> x \<noteq> CHR '' ''"
    using alnum_not_break by blast
  then show ?thesis by (auto simp: is_sentence_end_def)
qed

lemma split_loop_checked_eq:
  "split_loop_checked txt m i c t p = Inr (split_loop txt m i c t p)"
proof (induction "length txt - i" arbitrary: i c t p rule: less_induct)
  case less
  show ?case
  proof (cases "i < length txt")
    case True
    obtain i2 c2 t2 p2 where lb: "loop_body txt m i c t p = (i2, c2, t2, p2)"
      by (cases "loop_body txt m i c t p") auto
    from loop_body_advances [OF lb] True have d: "length txt - i2 < length txt - i" by simp
    have "split_loop_checked txt m i c t p = split_loop_checked txt m i2 c2 t2 p2"
      using True lb by (subst split_loop_checked.simps) (simp add: loop_body_checked_eq)
    with less [OF d] split_loop_unfold [OF True lb] show ?thesis by simp
  next
    case False
    then show ?thesis
      by (subst split_loop_checked.simps) (simp add: split_loop_end)
  qed
qed

lemma split_response_checked_eq:
  "split_response_checked d txt max_length_arg = Inr (split_response d txt max_length_arg)"
proof (cases "int (length txt) \<le> (case max_length_arg of None \<Rightarrow> d | Some n \<Rightarrow> n)")
  case True
  then show ?thesis
    by (simp only: split_response_checked_def split_response_def Let_def if_True)
next
  case False
  then show ?thesis
    by (simp only: split_response_checked_def split_response_def Let_def if_False
          split_loop_checked_eq)
qed


text \<open>
  Claim C8.  In a run of \<open>split_response\<close> on a text longer than \<open>max_length\<close>, when the
  scan stands at a closing tag whose name is not the top entry of the open-tag stack (or
  the stack is empty), the pass of the loop leaves the stack as it is, appends the
  closing tag to the buffer (after the flush, when the buffer had reached the limit) and
  moves past the tag; the closing tag occurs, whole, in a chunk of the result; and the
  run raises no error: the loop written with its raising operations as error branches
  returns the result.
\<close>

theorem split_response_unmatched_close:
  assumes run: "max_length < int (length text)"
    and st: "state_after text max_length n = (i, current_part, open_tags, parts)"
    and m: "close_tag_match (drop i text) = Some (tag_name, tag_length)"
    and u: "open_tags = [] \<or> last open_tags \<noteq> tag_name"
  shows "state_after text max_length (Suc n) =
      (case (if max_length \<le> int (length current_part)
             then flush_part max_length current_part open_tags parts
             else (parts, current_part)) of
         (parts1, current_part1) \<Rightarrow>
           (i + tag_length, current_part1 @ ''</'' @ tag_name @ ''>'', open_tags, parts1))
    \<and> (\<exists>chunk\<in>set (split_response MAX_MESSAGE_LENGTH text (Some max_length)).
          occurs_in (''</'' @ tag_name @ ''>'') chunk)
    \<and> split_response_checked MAX_MESSAGE_LENGTH text (Some max_length)
        = Inr (split_response MAX_MESSAGE_LENGTH text (Some max_length))"
proof -
  let ?tg = "''</'' @ tag_name @ ''>''"
  from run have res: "split_response MAX_MESSAGE_LENGTH text (Some max_length)
      = split_loop text max_length 0 [] [] []"
    by (simp add: split_response_def)
  from m have "drop i text \<noteq> []"
    by (auto simp: close_tag_match_def)
  then have less: "i < length text" by simp
  obtain parts1 current_part1 where fl:
    "(if max_length \<le> int (length current_part)
      then flush_part max_length current_part open_tags parts
      else (parts, current_part)) = (parts1, current_part1)"
    by (cases "if max_length \<le> int (length current_part)
      then flush_part max_length current_part open_tags parts
      else (parts, current_part)") auto
  have lb: "loop_body text max_length i current_part open_tags parts
      = (i + tag_length, current_part1 @ ?tg, open_tags, parts1)"
    using fl by (simp add: loop_body_def scan_tag_unmatched_close [OF m u])
  with st less have st2: "state_after text max_length (Suc n)
      = (i + tag_length, current_part1 @ ?tg, open_tags, parts1)"
    by simp
  have "occurs_in ?tg (current_part1 @ ?tg)"
    unfolding occurs_in_iff by (metis append_Nil2)
  then have "occurs_in ?tg (current_part1 @ ?tg) \<or> (\<exists>x\<in>set parts1. occurs_in ?tg x)"
    by simp
  from split_loop_keeps [OF close_tag_chars [OF m] _ this]
  have "\<exists>x\<in>set (split_loop text max_length (i + tag_length) (current_part1 @ ?tg)
      open_tags parts1). occurs_in ?tg x"
    by simp
  with split_loop_state_after [OF st2] res
  have out: "\<exists>chunk\<in>set (split_response MAX_MESSAGE_LENGTH text (Some max_length)).
      occurs_in ?tg chunk"
    by simp
  from st2 fl out split_response_checked_eq show ?thesis
    by simp
qed

theorem split_response_unmatched_close_witness:
  "state_after ''<b>a</i>c</b>'' 5 3 = (8, ''<b>a</i>'', [''b''], [])
   \<and> occurs_in ''</i>'' (hd (split_response 4000 ''<b>a</i>c</b>'' (Some 5)))
   \<and> split_response_checked 4000 ''<b>a</i>c</b>'' (Some 5)
       = Inr [''<b>a</i></b>'', ''<b>c</b>'']"
proof -
  have run: "(5 :: int) < int (length ''<b>a</i>c</b>'')" by simp
  have st: "state_after ''<b>a</i>c</b>'' 5 2 = (4, ''<b>a'', [''b''], [])" by code_simp
  have m: "close_tag_match (drop 4 ''<b>a</i>c</b>'') = Some (''i'', 4)" by code_simp
  have u: "[''b''] = [] \<or> last [''b''] \<noteq> ''i''" by simp
  have res: "split_response 4000 ''<b>a</i>c</b>'' (Some 5) = [''<b>a</i></b>'', ''<b>c</b>'']"
    by code_simp
  have occ: "occurs_in ''</i>'' ''<b>a</i></b>''" by code_simp
  from split_response_unmatched_close [OF run st m u, of 4000] res occ
  show ?thesis
    by (simp del: state_after.simps occurs_in.simps)
qed

section \<open>Properties of UserManager\<close>

lemma add_user_refused:
  "str uid |\<in>| fmdom (users self) \<or> max_users self \<le> int (fcard (fmdom (users self)))
     \<Longrightarrow> add_user str now self uid uname fname = (False, self)"
  by (auto simp: add_user_def can_accept_new_user_def Let_def)

lemma add_user_within_limit:
  "within_limit self \<Longrightarrow> within_limit (snd (add_user str now self uid uname fname))"
  by (auto simp: within_limit_def add_user_def can_accept_new_user_def Let_def
        fcard_finsert_disjoint)

lemma update_tokens_dom:
  "fmdom (users (update_tokens str self uid n)) = fmdom (users self)"
  by (auto simp: update_tokens_def Let_def split: option.splits intro: fmdomI)

lemma update_last_activity_dom:
  "fmdom (users (update_last_activity str now self uid)) = fmdom (users self)"
  by (auto simp: update_last_activity_def Let_def split: option.splits intro: fmdomI)

lemma update_tokens_max: "max_users (update_tokens str self uid n) = max_users self"
  by (simp add: update_tokens_def Let_def split: option.splits)

lemma update_last_activity_max:
  "max_users (update_last_activity str now self uid) = max_users self"
  by (simp add: update_last_activity_def Let_def split: option.splits)

lemma perform_within_limit: "within_limit self \<Longrightarrow> within_limit (perform str self op)"
proof (cases op)
  case (AddUser uid uname fname now)
  assume "within_limit self"
  with AddUser show ?thesis by (simp add: add_user_within_limit)
next
  case (UpdateTokens uid n)
  assume "within_limit self"
  with UpdateTokens show ?thesis
    by (simp add: within_limit_def update_tokens_dom update_tokens_max)
next
  case (UpdateLastActivity uid now)
  assume "within_limit self"
  with UpdateLastActivity show ?thesis
    by (simp add: within_limit_def update_last_activity_dom update_last_activity_max)
qed

lemma foldl_perform_within_limit:
  "within_limit self \<Longrightarrow> within_limit (foldl (perform str) self ops)"
  by (induction ops arbitrary: self) (simp_all add: perform_within_limit)

text \<open>
  Claim C10.  From a manager whose number of stored users is at most \<open>max_users\<close>:
  \<open>add_user\<close> returns \<open>False\<close> and leaves the manager as it was when the user is already
  stored or the number of users has reached \<open>max_users\<close>; otherwise it returns \<open>True\<close>,
  stores exactly one more record, under the new user's id, and leaves every other
  record as it was; and after any sequence of calls of \<open>add_user\<close>, \<open>update_tokens\<close> and
  \<open>update_last_activity\<close> the number of stored users is still at most \<open>max_users\<close>.
\<close>

theorem user_limit_preserved:
  assumes "within_limit self"
  shows "(str uid |\<in>| fmdom (users self) \<or> max_users self \<le> int (fcard (fmdom (users self)))
          \<longrightarrow> add_user str now self uid uname fname = (False, self))
    \<and> (str uid |\<notin>| fmdom (users self) \<and> int (fcard (fmdom (users self))) < max_users self
          \<longrightarrow> fst (add_user str now self uid uname fname)
            \<and> fmdom (users (snd (add_user str now self uid uname fname)))
                = finsert (str uid) (fmdom (users self))
            \<and> fcard (fmdom (users (snd (add_user str now self uid uname fname))))
                = fcard (fmdom (users self)) + 1
            \<and> (\<forall>k. k \<noteq> str uid \<longrightarrow>
                 fmlookup (users (snd (add_user str now self uid uname fname))) k
                   = fmlookup (users self) k))
    \<and> within_limit (foldl (perform str) self ops)"
proof (intro conjI impI)
  assume "str uid |\<in>| fmdom (users self) \<or> max_users self \<le> int (fcard (fmdom (users self)))"
  then show "add_user str now self uid uname fname = (False, self)"
    by (simp add: add_user_refused)
next
  assume a: "str uid |\<notin>| fmdom (users self)
    \<and> int (fcard (fmdom (users self))) < max_users self"
  then have eq: "add_user str now self uid uname fname =
      (True,
       self\<lparr>users :=
         fmupd (str uid)
           \<lparr>user_id = str uid, username = uname,
              first_name = (case fname of None \<Rightarrow> ''Unknown''
                            | Some n \<Rightarrow> if n = [] then ''Unknown'' else n),
              joined_at = now, total_tokens = 0, last_activity = now\<rparr>
           (users self)\<rparr>)"
    by (simp add: add_user_def can_accept_new_user_def Let_def)
  show "fst (add_user str now self uid uname fname)"
    by (simp add: eq)
  show "fmdom (users (snd (add_user str now self uid uname fname)))
      = finsert (str uid) (fmdom (users self))"
    by (simp add: eq)
  show "fcard (fmdom (users (snd (add_user str now self uid uname fname))))
      = fcard (fmdom (users self)) + 1"
    using a by (simp add: eq fcard_finsert_disjoint)
  show "\<forall>k. k \<noteq> str uid \<longrightarrow>
      fmlookup (users (snd (add_user str now self uid uname fname))) k
        = fmlookup (users self) k"
    by (simp add: eq)
next
  from assms show "within_limit (foldl (perform str) self ops)"
    by (rule foldl_perform_within_limit)
qed

theorem user_limit_preserved_witness:
  "within_limit \<lparr>admin_id = ''1'', max_users = 1, data_file = ''users_data.json'', users = fmempty\<rparr>
   \<and> fst (add_user id ''t'' \<lparr>admin_id = ''1'', max_users = 1, data_file = ''users_data.json'', users = fmempty\<rparr> ''7'' None None)
   \<and> fmdom (users (snd (add_user id ''t'' \<lparr>admin_id = ''1'', max_users = 1, data_file = ''users_data.json'', users = fmempty\<rparr> ''7'' None None))) = {|''7''|}
   \<and> within_limit (foldl (perform id) \<lparr>admin_id = ''1'', max_users = 1, data_file = ''users_data.json'', users = fmempty\<rparr>
        [AddUser ''7'' None None ''t'', AddUser ''8'' None None ''t'', UpdateTokens ''7'' 5])"
proof -
  let ?S = "\<lparr>admin_id = ''1'', max_users = 1, data_file = ''users_data.json'', users = fmempty\<rparr>"
  have h: "within_limit ?S" by (simp add: within_limit_def fcard_fempty)
  have f: "''7'' |\<notin>| fmdom (users ?S) \<and> int (fcard (fmdom (users ?S))) < max_users ?S"
    by (simp add: fcard_fempty)
  from user_limit_preserved [OF h, of id "''7''" "''t''" None None
      "[AddUser ''7'' None None ''t'', AddUser ''8'' None None ''t'', UpdateTokens ''7'' 5]"] f h
  show ?thesis by (simp del: foldl.simps)
qed

end
